theory Spec2Isabelle
  imports Complex_Main "HOL-Library.Monad_Syntax"
begin

section \<open>The Ludo engine of \<^verbatim>\<open>gudo_game.py\<close>\<close>

text \<open>
  Positions, die values and step counts are Python integers (\<open>int\<close>). A player index is a
  natural number: the program only ever produces it from \<^verbatim>\<open>range(self.num_players)\<close> and
  from \<^verbatim>\<open>enumerate\<close>. Indexing a Python list out of range raises \<^verbatim>\<open>IndexError\<close>; the model
  returns \<open>None\<close> there, so every function that indexes a table has an \<open>option\<close> result.
\<close>

subsection \<open>Constants\<close>

definition TOKENS_PER_PLAYER :: nat where
  "TOKENS_PER_PLAYER = 4"

definition MAIN_PATH_LEN :: int where
  "MAIN_PATH_LEN = 52"

definition HOME_STRETCH_LEN :: int where
  "HOME_STRETCH_LEN = 6"

definition START_POSITIONS :: "int list" where
  "START_POSITIONS = [0, 13, 26, 39]"

definition HOME_ENTRY :: "int list" where
  "HOME_ENTRY = [51, 12, 25, 38]"

text \<open>\<^verbatim>\<open>xs[i]\<close> for an index \<open>i \<ge> 0\<close>: \<open>None\<close> stands for \<^verbatim>\<open>IndexError\<close>.\<close>

definition nth_opt :: "'a list \<Rightarrow> nat \<Rightarrow> 'a option" where
  "nth_opt xs i = (if i < length xs then Some (xs ! i) else None)"

subsection \<open>Movement rules\<close>

text \<open>
  \<^verbatim>\<open>can_move_token(token, player_idx, roll)\<close> reads only \<^verbatim>\<open>token.pos\<close>, which is the first
  argument here.
\<close>

definition can_move_token :: "int \<Rightarrow> nat \<Rightarrow> int \<Rightarrow> bool option" where
  "can_move_token pos player_idx roll =
     (if pos = -1 then Some (roll = 6)
      else
        let finish = MAIN_PATH_LEN + HOME_STRETCH_LEN - 1 in
        if pos \<ge> MAIN_PATH_LEN then Some (pos + roll \<le> finish)
        else do {
          entry \<leftarrow> nth_opt HOME_ENTRY player_idx;
          let dist = (if entry \<ge> pos then entry - pos else MAIN_PATH_LEN - (pos - entry));
          if roll > dist then
            (let into = roll - dist - 1 in Some (into < HOME_STRETCH_LEN))
          else Some True
        })"

definition advance_position :: "int \<Rightarrow> int \<Rightarrow> nat \<Rightarrow> int option" where
  "advance_position pos steps player_idx =
     (if pos = -1 then
        (if steps = 6 then nth_opt START_POSITIONS player_idx else Some (-1))
      else if pos \<ge> MAIN_PATH_LEN then
        (let new = pos + steps;
             finish = MAIN_PATH_LEN + HOME_STRETCH_LEN - 1
         in Some (if new \<le> finish then new else -1))
      else do {
        entry \<leftarrow> nth_opt HOME_ENTRY player_idx;
        let dist = (if entry \<ge> pos then entry - pos else MAIN_PATH_LEN - (pos - entry));
        if steps > dist then
          (let into = steps - dist - 1;
               new = MAIN_PATH_LEN + into
           in Some (if new \<le> MAIN_PATH_LEN + HOME_STRETCH_LEN - 1 then new else -1))
        else Some ((pos + steps) mod MAIN_PATH_LEN)
      })"

text \<open>
  The loop of \<^verbatim>\<open>make_move\<close> that builds \<^verbatim>\<open>path\<close>: \<^verbatim>\<open>range(1, roll+1)\<close> has \<open>nat roll\<close>
  iterations; each one advances by a single step from the token's position (first iteration)
  or from \<^verbatim>\<open>path[-1]\<close>, and the loop is left by \<^verbatim>\<open>break\<close> when that step gives \<open>-1\<close>.
  \<open>path_loop n cur p\<close> is the part of the path appended by the remaining \<open>n\<close> iterations when
  the last position is \<open>cur\<close>.
\<close>

fun path_loop :: "nat \<Rightarrow> int \<Rightarrow> nat \<Rightarrow> int list option" where
  "path_loop 0 cur p = Some []"
| "path_loop (Suc n) cur p =
     do {
       new \<leftarrow> advance_position cur 1 p;
       if new = -1 then Some []
       else do { rest \<leftarrow> path_loop n new p; Some (new # rest) }
     }"

definition make_move_path :: "int \<Rightarrow> int \<Rightarrow> nat \<Rightarrow> int list option" where
  "make_move_path pos roll p = path_loop (nat roll) pos p"

text \<open>
  The forward clockwise distance from a track cell to an entry cell, as the specification
  words it: the difference, wrapping modulo 52.
\<close>

definition distanceToEntry :: "int \<Rightarrow> int \<Rightarrow> int" where
  "distanceToEntry pos entry = (entry - pos) mod 52"

subsection \<open>Game state\<close>

text \<open>
  A \<^verbatim>\<open>Token\<close> object carries \<^verbatim>\<open>player\<close>, \<^verbatim>\<open>index\<close> and \<^verbatim>\<open>pos\<close>; the first two are set once
  in the constructors (\<^verbatim>\<open>Player(i, ...)\<close> builds \<^verbatim>\<open>Token(canvas, idx, i, ...)\<close> for
  \<^verbatim>\<open>i in range(TOKENS_PER_PLAYER)\<close>) and never assigned again. So a token is identified by
  the pair (player index, token index), and \<open>players g ! p ! i\<close> holds the \<^verbatim>\<open>pos\<close> of token \<open>i\<close>
  of player \<open>p\<close>. A reference to a token object (the argument of \<^verbatim>\<open>make_move\<close>, the variable
  captured by \<^verbatim>\<open>on_done\<close>) is such a pair.

  Widgets, drawing and sound are left out. The one message box that is kept is the
  \<^verbatim>\<open>'Game Over'\<close> box of \<^verbatim>\<open>check_winner\<close>: \<open>game_over_shown\<close> lists, in order, the players it
  was shown for.
\<close>

type_synonym tokref = "nat \<times> nat"

text \<open>
  What the handlers hand to the scheduler (\<^verbatim>\<open>root.after\<close>, \<^verbatim>\<open>canvas.after\<close>). An animation in
  progress is the callback \<open>Animate_move tok rest roll\<close>: the drawing frames of the current
  step followed by \<^verbatim>\<open>animate_move\<close> on the rest of the path, with the \<^verbatim>\<open>on_done\<close> closure of
  \<^verbatim>\<open>make_move\<close> that captured \<^verbatim>\<open>token\<close> and \<^verbatim>\<open>roll\<close>.
\<close>

datatype callback =
    Next_turn
  | Ai_roll
  | Make_move tokref
  | Animate_move tokref "int list" int

record game =
  players :: "int list list"
  current_player :: nat
  dice_roll :: "int option"
  human_count :: nat
  num_players :: nat
  game_over_shown :: "nat list"

definition init_players :: "game \<Rightarrow> game" where
  "init_players g =
     g\<lparr>players := map (\<lambda>i. replicate TOKENS_PER_PLAYER (- 1)) [0..<num_players g],
       current_player := 0,
       dice_roll := None\<rparr>"

text \<open>Reading and writing \<^verbatim>\<open>token.pos\<close> through a token reference.\<close>

definition token_pos :: "game \<Rightarrow> tokref \<Rightarrow> int option" where
  "token_pos g tok = do { toks \<leftarrow> nth_opt (players g) (fst tok); nth_opt toks (snd tok) }"

definition set_pos :: "game \<Rightarrow> tokref \<Rightarrow> int \<Rightarrow> game" where
  "set_pos g tok v =
     g\<lparr>players := (players g)[fst tok := (players g ! fst tok)[snd tok := v]]\<rparr>"

text \<open>
  \<^verbatim>\<open>Player.movable_tokens\<close>: the list comprehension tests the tokens in order; the result
  lists the indices of the tokens kept.
\<close>

fun filter_opt :: "('a \<Rightarrow> bool option) \<Rightarrow> 'a list \<Rightarrow> 'a list option" where
  "filter_opt P [] = Some []"
| "filter_opt P (x # xs) =
     do { b \<leftarrow> P x; ys \<leftarrow> filter_opt P xs; Some (if b then x # ys else ys) }"

definition movable_tokens :: "nat \<Rightarrow> int list \<Rightarrow> int \<Rightarrow> nat list option" where
  "movable_tokens idx toks roll =
     filter_opt (\<lambda>i. can_move_token (toks ! i) idx roll) [0..<length toks]"

subsection \<open>Turn controller\<close>

definition update_ui :: "game \<Rightarrow> game \<times> callback list" where
  "update_ui g =
     (g, if current_player g \<ge> human_count g \<and> dice_roll g = None then [Ai_roll] else [])"

definition check_winner :: "game \<Rightarrow> bool \<times> game" where
  "check_winner g =
     (case find (\<lambda>(p_idx, toks).
                   length (filter (\<lambda>t. t = MAIN_PATH_LEN + HOME_STRETCH_LEN - 1) toks)
                     = TOKENS_PER_PLAYER)
                (enumerate 0 (players g)) of
        Some (p_idx, toks) \<Rightarrow> (True, g\<lparr>game_over_shown := game_over_shown g @ [p_idx]\<rparr>)
      | None \<Rightarrow> (False, g))"

text \<open>\<^verbatim>\<open>%\<close> raises \<^verbatim>\<open>ZeroDivisionError\<close> for a zero divisor.\<close>

definition next_turn :: "game \<Rightarrow> (game \<times> callback list) option" where
  "next_turn g =
     (let (won, g1) = check_winner g in
      if won then Some (g1, [])
      else if num_players g1 = 0 then None
      else Some (update_ui (g1\<lparr>current_player := (current_player g1 + 1) mod num_players g1,
                               dice_roll := None\<rparr>)))"

text \<open>
  The loop of \<^verbatim>\<open>check_capture\<close> skips the player of the moved token, so \<^verbatim>\<open>moved_token.pos\<close>,
  which it reads in every test, is the same throughout.
\<close>

definition check_capture :: "game \<Rightarrow> tokref \<Rightarrow> game option" where
  "check_capture g moved_token =
     do {
       mpos \<leftarrow> token_pos g moved_token;
       Some (g\<lparr>players :=
                 map (\<lambda>(p_idx, toks).
                        if p_idx = fst moved_token then toks
                        else map (\<lambda>ot. if ot = mpos \<and> ot < MAIN_PATH_LEN then - 1 else ot) toks)
                     (enumerate 0 (players g))\<rparr>)
     }"

text \<open>The closure \<^verbatim>\<open>on_done\<close> of \<^verbatim>\<open>make_move\<close>, with the \<^verbatim>\<open>token\<close> and \<^verbatim>\<open>roll\<close> it captured.\<close>

definition on_done :: "game \<Rightarrow> tokref \<Rightarrow> int \<Rightarrow> (game \<times> callback list) option" where
  "on_done g token roll =
     do {
       newpos \<leftarrow> token_pos g token;
       g1 \<leftarrow> (if newpos \<ge> 0 \<and> newpos < MAIN_PATH_LEN then check_capture g token else Some g);
       let g2 = g1\<lparr>dice_roll := None\<rparr>;
       if roll \<noteq> 6 then next_turn g2 else Some (update_ui g2)
     }"





subsection \<open>AI policy\<close>

text \<open>
  The test inside the loop of \<^verbatim>\<open>ai_roll\<close>: the target of token \<open>t\<close> is a track cell and some
  token of another player stands on it.
\<close>

definition capture_target :: "game \<Rightarrow> int \<Rightarrow> tokref \<Rightarrow> bool option" where
  "capture_target g roll t =
     do {
       tpos \<leftarrow> token_pos g t;
       target \<leftarrow> advance_position tpos roll (fst t);
       Some (target \<ge> 0 \<and> target < MAIN_PATH_LEN \<and>
             list_ex (\<lambda>(p_idx, toks).
                        p_idx \<noteq> fst t \<and> list_ex (\<lambda>ot. ot = target \<and> ot < MAIN_PATH_LEN) toks)
                     (enumerate 0 (players g)))
     }"

fun first_capture :: "game \<Rightarrow> int \<Rightarrow> tokref list \<Rightarrow> tokref option option" where
  "first_capture g roll [] = Some None"
| "first_capture g roll (t # ts) =
     do { c \<leftarrow> capture_target g roll t;
          if c then Some (Some t) else first_capture g roll ts }"

text \<open>
  \<^verbatim>\<open>random.choice(movable)\<close> returns \<^verbatim>\<open>movable[k]\<close> for some \<open>k\<close> below the length; the argument
  \<open>pick\<close> supplies it.
\<close>

definition ai_roll :: "game \<Rightarrow> int \<Rightarrow> nat \<Rightarrow> (game \<times> callback list) option" where
  "ai_roll g die pick =
     (let g1 = g\<lparr>dice_roll := Some die\<rparr> in
      do {
        toks \<leftarrow> nth_opt (players g1) (current_player g1);
        movable_idx \<leftarrow> movable_tokens (current_player g1) toks die;
        let movable = map (Pair (current_player g1)) movable_idx;
        if movable = [] then Some (g1\<lparr>dice_roll := None\<rparr>, [Next_turn])
        else do {
          choice \<leftarrow> first_capture g1 die movable;
          let choice = (case choice of Some t \<Rightarrow> t
                        | None \<Rightarrow> movable ! (pick mod length movable));
          Some (g1, [Make_move choice])
        }
      })"

subsection \<open>Running scheduled callbacks\<close>


text \<open>
  An animation run to its end with no other event in between: the chain of
  \<^verbatim>\<open>animate_move\<close> activations, the last one calling \<^verbatim>\<open>on_done\<close>.
\<close>

fun finish_animation ::
  "game \<Rightarrow> tokref \<Rightarrow> int list \<Rightarrow> int \<Rightarrow> (game \<times> callback list) option" where
  "finish_animation g token [] roll = on_done g token roll"
| "finish_animation g token (next_pos # rest) roll =
     finish_animation (set_pos g token next_pos) token rest roll"

fun complete_animation :: "game \<times> callback list \<Rightarrow> (game \<times> callback list) option" where
  "complete_animation (g, [Animate_move t rest roll]) = finish_animation g t rest roll"
| "complete_animation (g, cbs) = Some (g, cbs)"





text \<open>The games the setup dialog and \<^verbatim>\<open>init_players\<close> produce: 2 to 4 players of 4 tokens.\<close>

definition well_formed :: "game \<Rightarrow> bool" where
  "well_formed g \<longleftrightarrow>
     length (players g) = num_players g \<and> 2 \<le> num_players g \<and> num_players g \<le> 4 \<and>
     list_all (\<lambda>toks. length toks = TOKENS_PER_PLAYER) (players g) \<and>
     current_player g < num_players g"

subsection \<open>Notions used in the statements\<close>

text \<open>
  The board when \<^verbatim>\<open>on_done\<close> has resolved captures for a token that stands on \<open>landing\<close>:
  \<^verbatim>\<open>check_capture\<close> runs only for a track cell.
\<close>

definition after_capture :: "game \<Rightarrow> tokref \<Rightarrow> int \<Rightarrow> game" where
  "after_capture g tok landing =
     (if 0 \<le> landing \<and> landing < 52
      then (case check_capture g tok of Some g1 \<Rightarrow> g1 | None \<Rightarrow> g) else g)"

text \<open>
  The legal set of the current player for a roll, in scan order: the tokens in index order
  for which \<^verbatim>\<open>can_move_token\<close> holds.
\<close>

definition legal_tokens :: "game \<Rightarrow> int \<Rightarrow> tokref list" where
  "legal_tokens g roll =
     (case nth_opt (players g) (current_player g) of
        None \<Rightarrow> []
      | Some toks \<Rightarrow>
          map (Pair (current_player g))
            (filter (\<lambda>i. can_move_token (toks ! i) (current_player g) roll = Some True)
               [0..<length toks]))"

text \<open>
  The capture opportunity of the AI policy in the specification's words: the landing position
  of the token, as \<^verbatim>\<open>advance_position\<close> gives it, is a track cell \<open>0..51\<close> on which a token of
  another player stands.
\<close>

definition capture_opportunity :: "game \<Rightarrow> int \<Rightarrow> tokref \<Rightarrow> bool" where
  "capture_opportunity g roll t \<longleftrightarrow>
     (\<exists>pos target q j. token_pos g t = Some pos \<and>
        advance_position pos roll (fst t) = Some target \<and> 0 \<le> target \<and> target < 52 \<and>
        q \<noteq> fst t \<and> token_pos g (q, j) = Some target)"



subsection \<open>Concrete games\<close>

definition scenario3 :: game where
  "scenario3 = \<lparr>players = [[13, - 1, - 1, - 1], [13, 5, - 1, - 1]], current_player = 0,
                 dice_roll = Some 3, human_count = 2, num_players = 2, game_over_shown = []\<rparr>"

definition scenario4 :: game where
  "scenario4 = \<lparr>players = [[5, - 1, - 1, - 1], [2, 3, - 1, - 1]], current_player = 1,
                 dice_roll = None, human_count = 1, num_players = 2, game_over_shown = []\<rparr>"









subsection \<open>Path model\<close>

text \<open>
  Pixel coordinates are Python floats in the program; here they are exact rationals. The
  grid cells they come from are integers.
\<close>

type_synonym point = "rat \<times> rat"

definition WINDOW_SIZE :: int where
  "WINDOW_SIZE = 760"

definition BOARD_SIZE :: int where
  "BOARD_SIZE = 620"

definition MARGIN :: int where
  "MARGIN = (WINDOW_SIZE - BOARD_SIZE) div 2"

definition pix :: "int \<Rightarrow> int \<Rightarrow> point" where
  "pix r c =
     (let x = of_int MARGIN + of_int c * (of_int BOARD_SIZE / 14);
          y = of_int MARGIN + of_int r * (of_int BOARD_SIZE / 14)
      in (x, y))"

definition cells :: "(int \<times> int) list" where
  "cells =
     [(6,0),(6,1),(6,2),(6,3),(6,4),(6,5),
      (5,6),(4,6),(3,6),(2,6),(1,6),(0,6),(0,7),
      (0,8),(1,8),(2,8),(3,8),(4,8),(5,8),
      (6,9),(6,10),(6,11),(6,12),(6,13),(6,14),
      (7,14),(8,14),(8,13),(8,12),(8,11),(8,10),(8,9),
      (9,8),(10,8),(11,8),(12,8),(13,8),(14,8),(14,7),
      (14,6),(13,6),(12,6),(11,6),(10,6),(9,6),(8,6)]"

text \<open>
  The loop \<^verbatim>\<open>while len(coords) < MAIN_PATH_LEN: coords.append(coords[-1])\<close> appends the last
  element until the list has 52 entries; appending the last element does not change the last
  element, so the loop appends that many copies of it.
\<close>

definition build_path_coords :: "point list" where
  "build_path_coords =
     (let coords = map (\<lambda>(r, c). pix r c) cells;
          coords = coords @ replicate (nat MAIN_PATH_LEN - length coords) (last coords)
      in take (nat MAIN_PATH_LEN) coords)"

definition PATH_COORDS :: "point list" where
  "PATH_COORDS = build_path_coords"

definition CENTER :: point where
  "CENTER = (of_int MARGIN + of_int BOARD_SIZE / 2, of_int MARGIN + of_int BOARD_SIZE / 2)"

text \<open>
  The dictionary \<^verbatim>\<open>HOME_COORDS\<close>, filled for \<^verbatim>\<open>p in range(4)\<close>; a key outside it is \<open>None\<close>.
\<close>

definition HOME_COORDS :: "nat \<Rightarrow> point list option" where
  "HOME_COORDS p =
     do {
       s \<leftarrow> nth_opt START_POSITIONS p;
       (sx, sy) \<leftarrow> nth_opt PATH_COORDS (nat s);
       Some (map (\<lambda>i. let t = (of_nat i + 1) / of_int HOME_STRETCH_LEN;
                           x = sx + (fst CENTER - sx) * t;
                           y = sy + (snd CENTER - sy) * t
                       in (x, y))
                 [0..<nat HOME_STRETCH_LEN])
     }"

text \<open>
  The home-stretch points of the specification: six points interpolated linearly from a cell
  toward the board centre, the \<open>k\<close>-th at \<open>k/6\<close> of the way.
\<close>

definition interpolated_from :: "point \<Rightarrow> point list" where
  "interpolated_from cell =
     map (\<lambda>k. (fst cell + (fst CENTER - fst cell) * (of_nat k / 6),
                snd cell + (snd CENTER - snd cell) * (of_nat k / 6)))
         [1, 2, 3, 4, 5, 6]"

subsection \<open>Facts about the tables\<close>

lemma nth_opt_HOME_ENTRY:
  "p < 4 \<Longrightarrow> \<exists>e. nth_opt HOME_ENTRY p = Some e \<and> e \<in> {51, 12, 25, 38}"
  by (auto simp: nth_opt_def HOME_ENTRY_def nth_Cons split: nat.splits)

lemma nth_opt_START_POSITIONS:
  "p < 4 \<Longrightarrow> \<exists>s. nth_opt START_POSITIONS p = Some s \<and> s \<in> {0, 13, 26, 39}"
  by (auto simp: nth_opt_def START_POSITIONS_def nth_Cons split: nat.splits)

lemma code_dist_is_distanceToEntry:
  assumes "0 \<le> pos" "pos < 52" "0 \<le> entry" "entry < 52"
  shows "(if entry \<ge> pos then entry - pos else MAIN_PATH_LEN - (pos - entry))
           = distanceToEntry pos entry"
proof (cases "entry \<ge> pos")
  case True
  with assms show ?thesis by (simp add: distanceToEntry_def)
next
  case False
  with assms have b: "0 \<le> entry - pos + 52" "entry - pos + 52 < 52" by simp_all
  have "(entry - pos) mod 52 = (entry - pos + 52) mod 52" by simp
  also have "\<dots> = entry - pos + 52" using b by (rule mod_pos_pos_trivial)
  finally have "(entry - pos) mod 52 = entry - pos + 52" .
  with False show ?thesis by (simp add: distanceToEntry_def MAIN_PATH_LEN_def)
qed

lemma advance_position_track:
  assumes "0 \<le> pos" "pos < 52" "nth_opt HOME_ENTRY p = Some e" "0 \<le> e" "e < 52"
  shows "advance_position pos steps p =
           Some (if steps > distanceToEntry pos e
                 then (if 52 + (steps - distanceToEntry pos e - 1) \<le> 57
                       then 52 + (steps - distanceToEntry pos e - 1) else - 1)
                 else (pos + steps) mod 52)"
proof -
  from code_dist_is_distanceToEntry[OF assms(1,2,4,5)]
  have d: "(if e \<ge> pos then e - pos else MAIN_PATH_LEN - (pos - e)) = distanceToEntry pos e" .
  from assms show ?thesis
    unfolding advance_position_def
    by (simp add: d MAIN_PATH_LEN_def HOME_STRETCH_LEN_def Let_def)
qed

lemma can_move_token_track:
  assumes "0 \<le> pos" "pos < 52" "nth_opt HOME_ENTRY p = Some e" "0 \<le> e" "e < 52"
  shows "can_move_token pos p roll =
           Some (if roll > distanceToEntry pos e then roll - distanceToEntry pos e - 1 < 6
                 else True)"
proof -
  from code_dist_is_distanceToEntry[OF assms(1,2,4,5)]
  have d: "(if e \<ge> pos then e - pos else MAIN_PATH_LEN - (pos - e)) = distanceToEntry pos e" .
  from assms show ?thesis
    unfolding can_move_token_def
    by (simp add: d MAIN_PATH_LEN_def HOME_STRETCH_LEN_def Let_def)
qed

section \<open>Movement engine\<close>

text \<open>
  Claim C1, at a base release. A token in its base (position \<open>-1\<close>) of player 0 with a roll
  of 6 may move, and \<^verbatim>\<open>advance_position\<close> sends it to the start cell 0; but the path that
  \<^verbatim>\<open>make_move\<close> builds for the animation is empty: its first single step from \<open>-1\<close> is
  \<^verbatim>\<open>advance_position(-1, 1, 0) = -1\<close>, and the loop breaks.
\<close>

theorem make_move_path_base_release:
  "can_move_token (- 1) 0 6 = Some True \<and> advance_position (- 1) 6 0 = Some 0 \<and>
   advance_position (- 1) 1 0 = Some (- 1) \<and> make_move_path (- 1) 6 0 = Some []"
  by (simp add: can_move_token_def advance_position_def make_move_path_def nth_opt_def
        START_POSITIONS_def eval_nat_numeral)

text \<open>
  Claim C2. For a position in \<open>{-1} \<union> {0..57}\<close>, a roll in \<open>1..6\<close> and one of the four players,
  \<^verbatim>\<open>advance_position\<close> returns \<open>-1\<close> exactly when \<^verbatim>\<open>can_move_token\<close> is false. When the move is
  legal the result lies in \<open>0..57\<close> and is the start index from the base, \<open>pos + roll\<close> in the
  home stretch, \<open>(pos + roll) mod 52\<close> on the track when the roll does not exceed the distance
  to the entry cell, and \<open>52 + (roll - distance - 1)\<close> otherwise.
\<close>

theorem advance_position_spec:
  assumes "p < 4" and "pos = - 1 \<or> (0 \<le> pos \<and> pos \<le> 57)" and "1 \<le> roll" and "roll \<le> 6"
  shows "\<exists>r b entry start.
           advance_position pos roll p = Some r \<and> can_move_token pos p roll = Some b \<and>
           nth_opt HOME_ENTRY p = Some entry \<and> nth_opt START_POSITIONS p = Some start \<and>
           (r = - 1 \<longleftrightarrow> \<not> b) \<and>
           (b \<longrightarrow> 0 \<le> r \<and> r \<le> 57 \<and>
              r = (if pos = - 1 then start
                   else if pos \<ge> 52 then pos + roll
                   else if roll \<le> distanceToEntry pos entry then (pos + roll) mod 52
                   else 52 + (roll - distanceToEntry pos entry - 1)))"
proof -
  from assms(1) obtain e where e: "nth_opt HOME_ENTRY p = Some e" "e \<in> {51, 12, 25, 38}"
    using nth_opt_HOME_ENTRY by blast
  from assms(1) obtain s where s: "nth_opt START_POSITIONS p = Some s" "s \<in> {0, 13, 26, 39}"
    using nth_opt_START_POSITIONS by blast
  from e(2) have eb: "0 \<le> e" "e < 52" by auto
  consider (base) "pos = - 1" | (home) "52 \<le> pos" "pos \<le> 57" | (track) "0 \<le> pos" "pos < 52"
    using assms(2) by linarith
  then show ?thesis
  proof cases
    case base
    with e s show ?thesis
      by (auto simp: advance_position_def can_move_token_def)
  next
    case home
    with e s assms(3,4) show ?thesis
      by (auto simp: advance_position_def can_move_token_def MAIN_PATH_LEN_def
            HOME_STRETCH_LEN_def Let_def)
  next
    case track
    obtain v where v: "(pos + roll) mod 52 = v" "0 \<le> v" "v < 52" by simp
    have dn: "0 \<le> distanceToEntry pos e" by (simp add: distanceToEntry_def)
    show ?thesis
      using e(1) s(1) v dn assms(3,4) track
      by (simp add: advance_position_track[OF track e(1) eb]
            can_move_token_track[OF track e(1) eb])
  qed
qed

theorem advance_position_spec_witness:
  "(0::nat) < 4 \<and> ((50::int) = - 1 \<or> (0 \<le> (50::int) \<and> (50::int) \<le> 57)) \<and>
   (1::int) \<le> 3 \<and> (3::int) \<le> 6 \<and>
   advance_position 50 3 0 = Some 53 \<and> can_move_token 50 0 3 = Some True \<and>
   distanceToEntry 50 51 = 1"
proof -
  have e: "nth_opt HOME_ENTRY 0 = Some 51"
    by (simp add: nth_opt_def HOME_ENTRY_def)
  have d: "distanceToEntry 50 51 = 1"
    by (simp add: distanceToEntry_def)
  have c: "can_move_token 50 0 3 = Some True"
    by (simp add: can_move_token_def e MAIN_PATH_LEN_def HOME_STRETCH_LEN_def)
  from advance_position_spec[of 0 50 3] e d c show ?thesis
    by auto
qed

text \<open>
  Claim C3. \<^verbatim>\<open>can_move_token\<close> for one of the four players: from the base, true iff the roll
  is 6; in the home stretch (\<open>pos \<ge> 52\<close>), true iff \<open>pos + roll \<le> 57\<close>; on the track, with the
  forward distance to the player's entry cell taken modulo 52, true whenever the roll does
  not exceed the distance, and otherwise true iff the offset \<open>roll - distance - 1\<close> is below 6.
\<close>

theorem can_move_token_spec:
  assumes "p < 4" and "- 1 \<le> pos"
  shows "\<exists>entry. nth_opt HOME_ENTRY p = Some entry \<and> entry \<in> {51, 12, 25, 38} \<and>
           can_move_token pos p roll =
             Some (if pos = - 1 then roll = 6
                   else if pos \<ge> 52 then pos + roll \<le> 57
                   else if roll \<le> distanceToEntry pos entry then True
                   else roll - distanceToEntry pos entry - 1 < 6)"
proof -
  from assms(1) obtain e where e: "nth_opt HOME_ENTRY p = Some e" "e \<in> {51, 12, 25, 38}"
    using nth_opt_HOME_ENTRY by blast
  show ?thesis
  proof (cases "pos = - 1 \<or> pos \<ge> 52")
    case True
    with e show ?thesis
      by (auto simp: can_move_token_def MAIN_PATH_LEN_def HOME_STRETCH_LEN_def)
  next
    case False
    with assms(2) have r: "0 \<le> pos" "pos < 52" by auto
    from e(2) have eb: "0 \<le> e" "e < 52" by auto
    from False r e show ?thesis
      by (simp add: can_move_token_track[OF r e(1) eb])
  qed
qed

theorem can_move_token_spec_witness:
  "(1::nat) < 4 \<and> - 1 \<le> (10::int) \<and> distanceToEntry 10 12 = 2 \<and>
   can_move_token 10 1 8 = Some True \<and> can_move_token 10 1 9 = Some False"
proof -
  have e: "nth_opt HOME_ENTRY 1 = Some 12"
    by (simp add: nth_opt_def HOME_ENTRY_def)
  have d: "distanceToEntry 10 12 = 2"
    by (simp add: distanceToEntry_def)
  from can_move_token_spec[of 1 10 8] can_move_token_spec[of 1 10 9] e d show ?thesis
    by auto
qed

section \<open>Turn controller: supporting facts\<close>

lemma check_winner_fields:
  "players (snd (check_winner g)) = players g"
  "current_player (snd (check_winner g)) = current_player g"
  "dice_roll (snd (check_winner g)) = dice_roll g"
  "human_count (snd (check_winner g)) = human_count g"
  "num_players (snd (check_winner g)) = num_players g"
  by (simp_all add: check_winner_def split: option.splits prod.splits)

lemma update_ui_fst: "fst (update_ui g) = g"
  by (simp add: update_ui_def)

lemma next_turn_result:
  assumes "num_players g \<noteq> 0"
  shows "\<exists>g' cbs. next_turn g = Some (g', cbs) \<and> players g' = players g \<and>
           human_count g' = human_count g \<and> num_players g' = num_players g \<and>
           (if fst (check_winner g)
            then current_player g' = current_player g \<and> dice_roll g' = dice_roll g \<and> cbs = []
            else current_player g' = (current_player g + 1) mod num_players g \<and>
                 dice_roll g' = None)"
proof (cases "check_winner g")
  case (Pair won g1)
  then have f: "players g1 = players g" "current_player g1 = current_player g"
    "dice_roll g1 = dice_roll g" "human_count g1 = human_count g"
    "num_players g1 = num_players g"
    using check_winner_fields[of g] by simp_all
  show ?thesis
    using assms Pair f by (simp add: next_turn_def update_ui_def)
qed

lemma nth_opt_enumerate:
  "nth_opt (enumerate 0 xs) q = map_option (Pair q) (nth_opt xs q)"
  by (simp add: nth_opt_def nth_enumerate_eq)

lemma nth_opt_map:
  "nth_opt (map f xs) j = map_option f (nth_opt xs j)"
  by (simp add: nth_opt_def)

lemma token_pos_check_capture:
  assumes "check_capture g (p, i) = Some g'" and "token_pos g (p, i) = Some landing"
  shows "token_pos g' (q, j) =
           map_option (\<lambda>v. if q \<noteq> p \<and> v = landing \<and> v < MAIN_PATH_LEN then - 1 else v)
             (token_pos g (q, j))"
proof -
  from assms have g': "g' = g\<lparr>players :=
                 map (\<lambda>(p_idx, toks).
                        if p_idx = p then toks
                        else map (\<lambda>ot. if ot = landing \<and> ot < MAIN_PATH_LEN then - 1 else ot) toks)
                     (enumerate 0 (players g))\<rparr>"
    by (auto simp: check_capture_def)
  show ?thesis
    by (cases "nth_opt (players g) q")
       (auto simp: g' token_pos_def nth_opt_enumerate nth_opt_map option.map_ident
          intro!: map_option_cong)
qed

lemma token_pos_cong: "players h = players g \<Longrightarrow> token_pos h tok = token_pos g tok"
  by (simp add: token_pos_def)

lemma check_capture_Some:
  assumes "token_pos g tok = Some landing"
  shows "\<exists>g1. check_capture g tok = Some g1 \<and> current_player g1 = current_player g \<and>
           dice_roll g1 = dice_roll g \<and> human_count g1 = human_count g \<and>
           num_players g1 = num_players g \<and> game_over_shown g1 = game_over_shown g \<and>
           length (players g1) = length (players g)"
  using assms by (simp add: check_capture_def)

lemma on_done_unfold:
  assumes "token_pos g tok = Some landing"
  shows "on_done g tok roll =
           (if roll \<noteq> 6 then next_turn ((after_capture g tok landing)\<lparr>dice_roll := None\<rparr>)
            else Some (update_ui ((after_capture g tok landing)\<lparr>dice_roll := None\<rparr>)))"
proof -
  from check_capture_Some[OF assms] obtain g1 where "check_capture g tok = Some g1" by blast
  with assms show ?thesis
    by (simp add: on_done_def after_capture_def MAIN_PATH_LEN_def)
qed

lemma after_capture_fields:
  assumes "token_pos g tok = Some landing"
  shows "current_player (after_capture g tok landing) = current_player g"
    and "human_count (after_capture g tok landing) = human_count g"
    and "num_players (after_capture g tok landing) = num_players g"
    and "game_over_shown (after_capture g tok landing) = game_over_shown g"
    and "length (players (after_capture g tok landing)) = length (players g)"
  using check_capture_Some[OF assms] by (auto simp: after_capture_def)

lemma token_pos_after_capture:
  assumes "token_pos g (p, i) = Some landing"
  shows "token_pos (after_capture g (p, i) landing) (q, j) =
           map_option (\<lambda>v. if 0 \<le> landing \<and> landing < 52 \<and> q \<noteq> p \<and> v = landing
                            then - 1 else v)
             (token_pos g (q, j))"
proof (cases "0 \<le> landing \<and> landing < 52")
  case True
  from check_capture_Some[OF assms] obtain g1 where g1: "check_capture g (p, i) = Some g1"
    by blast
  have "(\<lambda>v. if q \<noteq> p \<and> v = landing \<and> v < MAIN_PATH_LEN then - 1 else v)
        = (\<lambda>v. if 0 \<le> landing \<and> landing < 52 \<and> q \<noteq> p \<and> v = landing then - 1 else v)"
    using True by (auto simp: MAIN_PATH_LEN_def fun_eq_iff)
  with token_pos_check_capture[OF g1 assms, of q j] True g1 show ?thesis
    by (simp add: after_capture_def)
next
  case False
  then have "(\<lambda>v. if 0 \<le> landing \<and> landing < 52 \<and> q \<noteq> p \<and> v = landing then - 1 else v)
        = (\<lambda>v. v)"
    by (auto simp: fun_eq_iff)
  moreover from False have "after_capture g (p, i) landing = g"
    by (auto simp: after_capture_def)
  ultimately show ?thesis by (simp add: option.map_ident)
qed

section \<open>Capture resolution\<close>

text \<open>
  Claim C8. When \<^verbatim>\<open>on_done\<close> commits a move of token \<open>(p, i)\<close> that stands on \<open>landing\<close>, every
  token of another player on that cell goes to \<open>-1\<close> if \<open>landing\<close> is a track cell \<open>0..51\<close>, and
  every other token keeps its position: the moved token, the mover's other tokens and the
  tokens on other cells. With \<open>landing\<close> in a home stretch or in the base, no token changes.
\<close>

theorem capture_frame:
  assumes "well_formed g" and "token_pos g (p, i) = Some landing"
  shows "\<exists>g' cbs. on_done g (p, i) roll = Some (g', cbs) \<and>
           (\<forall>q j. token_pos g' (q, j) =
                    map_option (\<lambda>v. if 0 \<le> landing \<and> landing < 52 \<and> q \<noteq> p \<and> v = landing
                                     then - 1 else v)
                      (token_pos g (q, j)))"
proof -
  let ?c = "(after_capture g (p, i) landing)\<lparr>dice_roll := None\<rparr>"
  from assms(1) have "num_players ?c \<noteq> 0"
    by (simp add: well_formed_def after_capture_fields[OF assms(2)])
  from next_turn_result[OF this] obtain g2 cbs2 where
    nt: "next_turn ?c = Some (g2, cbs2)" "players g2 = players ?c" by blast
  obtain g' cbs where r: "on_done g (p, i) roll = Some (g', cbs)" and pl: "players g' = players ?c"
    using nt by (cases "roll = 6") (auto simp: on_done_unfold[OF assms(2)] update_ui_def)
  have "token_pos g' (q, j) = token_pos (after_capture g (p, i) landing) (q, j)" for q j
    using pl by (simp add: token_pos_def)
  with r show ?thesis
    by (simp add: token_pos_after_capture[OF assms(2)])
qed


theorem capture_frame_witness:
  "well_formed scenario3 \<and> token_pos scenario3 (0, 0) = Some 13 \<and>
   (\<exists>g' cbs. on_done scenario3 (0, 0) 3 = Some (g', cbs) \<and>
      token_pos g' (0, 0) = Some 13 \<and> token_pos g' (1, 0) = Some (- 1) \<and>
      token_pos g' (1, 1) = Some 5 \<and> token_pos g' (0, 1) = Some (- 1))"
proof -
  have w: "well_formed scenario3"
    by (simp add: well_formed_def scenario3_def TOKENS_PER_PLAYER_def)
  have t: "token_pos scenario3 (0, 0) = Some 13" "token_pos scenario3 (1, 0) = Some 13"
    "token_pos scenario3 (1, 1) = Some 5" "token_pos scenario3 (0, 1) = Some (- 1)"
    by (simp_all add: token_pos_def scenario3_def nth_opt_def)
  from capture_frame[OF w t(1), of 3] w t show ?thesis
    by auto
qed

section \<open>AI policy\<close>

lemma can_move_token_Some: "p < 4 \<Longrightarrow> \<exists>b. can_move_token pos p roll = Some b"
  using nth_opt_HOME_ENTRY[of p]
  by (auto simp: can_move_token_def Let_def)

lemma advance_position_Some: "p < 4 \<Longrightarrow> \<exists>r. advance_position pos steps p = Some r"
  using nth_opt_HOME_ENTRY[of p] nth_opt_START_POSITIONS[of p]
  by (auto simp: advance_position_def Let_def)

lemma filter_opt_total:
  "(\<And>x. x \<in> set xs \<Longrightarrow> \<exists>b. P x = Some b) \<Longrightarrow>
   filter_opt P xs = Some (filter (\<lambda>x. P x = Some True) xs)"
proof (induction xs)
  case Nil
  then show ?case by simp
next
  case (Cons x xs)
  then obtain b where b: "P x = Some b" by auto
  from Cons have "filter_opt P xs = Some (filter (\<lambda>x. P x = Some True) xs)" by simp
  with b show ?case by simp
qed

lemma movable_tokens_total:
  "idx < 4 \<Longrightarrow>
   movable_tokens idx toks roll =
     Some (filter (\<lambda>i. can_move_token (toks ! i) idx roll = Some True) [0..<length toks])"
  unfolding movable_tokens_def
  by (rule filter_opt_total) (rule can_move_token_Some)

lemma list_ex_enumerate:
  "list_ex (\<lambda>(q, toks). P q toks) (enumerate 0 xs) \<longleftrightarrow> (\<exists>q < length xs. P q (xs ! q))"
proof
  assume "list_ex (\<lambda>(q, toks). P q toks) (enumerate 0 xs)"
  then obtain q t where "(q, t) \<in> set (enumerate 0 xs)" "P q t"
    by (auto simp: list_ex_iff)
  then show "\<exists>q < length xs. P q (xs ! q)"
    by (auto simp: in_set_enumerate_eq)
next
  assume "\<exists>q < length xs. P q (xs ! q)"
  then obtain q where q: "q < length xs" "P q (xs ! q)" by blast
  then have "(q, xs ! q) \<in> set (enumerate 0 xs)"
    by (simp add: in_set_enumerate_eq)
  with q(2) show "list_ex (\<lambda>(q, toks). P q toks) (enumerate 0 xs)"
    unfolding list_ex_iff by (intro bexI[of _ "(q, xs ! q)"]) simp_all
qed

lemma token_pos_iff:
  "token_pos g (q, j) = Some v \<longleftrightarrow>
     q < length (players g) \<and> j < length (players g ! q) \<and> players g ! q ! j = v"
  by (auto simp: token_pos_def nth_opt_def)

lemma opposing_token_on:
  "list_ex (\<lambda>(p_idx, toks). p_idx \<noteq> p \<and>
              list_ex (\<lambda>ot. ot = target \<and> ot < MAIN_PATH_LEN) toks)
      (enumerate 0 (players g))
   \<longleftrightarrow> target < 52 \<and> (\<exists>q j. q \<noteq> p \<and> token_pos g (q, j) = Some target)"
  unfolding list_ex_enumerate token_pos_iff
  by (auto simp: list_ex_iff in_set_conv_nth MAIN_PATH_LEN_def)

lemma capture_target_eq:
  assumes "fst t < 4" and "token_pos g t = Some pos"
  shows "capture_target g roll t = Some (capture_opportunity g roll t)"
proof -
  from advance_position_Some[OF assms(1)] obtain target where
    tg: "advance_position pos roll (fst t) = Some target" by blast
  have "capture_target g roll t =
          Some (0 \<le> target \<and> target < 52 \<and>
                (\<exists>q j. q \<noteq> fst t \<and> token_pos g (q, j) = Some target))"
    using assms(2) tg
    by (simp add: capture_target_def opposing_token_on) (auto simp: MAIN_PATH_LEN_def)
  moreover have "capture_opportunity g roll t \<longleftrightarrow>
          (0 \<le> target \<and> target < 52 \<and>
                (\<exists>q j. q \<noteq> fst t \<and> token_pos g (q, j) = Some target))"
    using assms(2) tg by (simp add: capture_opportunity_def)
  ultimately show ?thesis by simp
qed

lemma first_capture_spec:
  assumes "\<And>t. t \<in> set ts \<Longrightarrow> capture_target g roll t = Some (C t)"
  shows "first_capture g roll ts = Some (find C ts)"
  using assms by (induction ts) auto


lemma capture_opportunity_cong:
  "players h = players g \<Longrightarrow> capture_opportunity h roll t = capture_opportunity g roll t"
  by (simp add: capture_opportunity_def token_pos_def)

lemma well_formed_current:
  assumes "well_formed g"
  shows "current_player g < 4"
    and "\<exists>toks. nth_opt (players g) (current_player g) = Some toks \<and> length toks = 4"
  using assms
  by (auto simp: well_formed_def nth_opt_def list_all_length TOKENS_PER_PLAYER_def)

lemma ai_roll_unfold:
  assumes "well_formed g"
  shows "ai_roll g die pick =
           (let g1 = g\<lparr>dice_roll := Some die\<rparr>; movable = legal_tokens g die in
            if movable = [] then Some (g\<lparr>dice_roll := None\<rparr>, [Next_turn])
            else do {
              choice \<leftarrow> first_capture g1 die movable;
              Some (g1, [Make_move (case choice of Some t \<Rightarrow> t
                                    | None \<Rightarrow> movable ! (pick mod length movable))])
            })"
proof -
  from well_formed_current[OF assms] obtain toks where
    c: "current_player g < 4" and t: "nth_opt (players g) (current_player g) = Some toks"
    by blast
  show ?thesis
    using t by (simp add: ai_roll_def legal_tokens_def movable_tokens_total[OF c] Let_def
                  cong: option.case_cong)
qed

lemma ai_roll_choice:
  assumes "well_formed g" and "legal_tokens g die \<noteq> []"
  shows "\<exists>c. ai_roll g die pick = Some (g\<lparr>dice_roll := Some die\<rparr>, [Make_move c]) \<and>
           c \<in> set (legal_tokens g die) \<and>
           (\<forall>t. find (capture_opportunity g die) (legal_tokens g die) = Some t \<longrightarrow> c = t)"
proof -
  let ?g1 = "g\<lparr>dice_roll := Some die\<rparr>"
  let ?mv = "legal_tokens g die"
  from well_formed_current[OF assms(1)] obtain toks where
    c: "current_player g < 4" and t: "nth_opt (players g) (current_player g) = Some toks"
    by blast
  have ct: "capture_target ?g1 die x = Some (capture_opportunity g die x)" if "x \<in> set ?mv" for x
  proof -
    from that t obtain i where i: "x = (current_player g, i)" "i < length toks"
      by (auto simp: legal_tokens_def)
    with t have "token_pos ?g1 x = Some (toks ! i)"
      by (simp add: token_pos_def nth_opt_def split: if_splits)
    moreover from i c have "fst x < 4" by simp
    ultimately have "capture_target ?g1 die x = Some (capture_opportunity ?g1 die x)"
      by (rule capture_target_eq[rotated])
    then show ?thesis by (simp add: capture_opportunity_cong[of ?g1 g])
  qed
  have fc: "first_capture ?g1 die ?mv = Some (find (capture_opportunity g die) ?mv)"
    by (rule first_capture_spec) (rule ct)
  let ?c = "case find (capture_opportunity g die) ?mv of Some t \<Rightarrow> t
            | None \<Rightarrow> ?mv ! (pick mod length ?mv)"
  have r: "ai_roll g die pick = Some (?g1, [Make_move ?c])"
    using assms(2) by (simp add: ai_roll_unfold[OF assms(1)] fc Let_def)
  have "?c \<in> set ?mv"
  proof (cases "find (capture_opportunity g die) ?mv")
    case None
    from assms(2) have "pick mod length ?mv < length ?mv" by simp
    with None show ?thesis by (simp add: nth_mem del: length_greater_0_conv)
  next
    case (Some a)
    then have "a \<in> set ?mv" by (auto simp: find_Some_iff)
    with Some show ?thesis by simp
  qed
  with r show ?thesis by auto
qed

text \<open>
  Claim C9. When the current player has a legal token for the roll, \<^verbatim>\<open>ai_roll\<close> schedules the
  move of one token of the legal set; and when some legal token has a capture opportunity,
  the token chosen is the first such token in scan order, wherever it stands in that order.
\<close>

theorem ai_roll_prefers_capture:
  assumes "well_formed g" and "legal_tokens g die \<noteq> []"
  shows "\<exists>c. ai_roll g die pick = Some (g\<lparr>dice_roll := Some die\<rparr>, [Make_move c]) \<and>
           c \<in> set (legal_tokens g die) \<and>
           (\<forall>t. find (capture_opportunity g die) (legal_tokens g die) = Some t \<longrightarrow> c = t)"
  using assms by (rule ai_roll_choice)

theorem ai_roll_prefers_capture_witness:
  "well_formed scenario4 \<and> legal_tokens scenario4 2 = [(1, 0), (1, 1)] \<and>
   find (capture_opportunity scenario4 2) (legal_tokens scenario4 2) = Some (1, 1) \<and>
   ai_roll scenario4 2 0 = Some (scenario4\<lparr>dice_roll := Some 2\<rparr>, [Make_move (1, 1)])"
proof -
  have w: "well_formed scenario4"
    by (simp add: well_formed_def scenario4_def TOKENS_PER_PLAYER_def)
  have e: "nth_opt HOME_ENTRY 1 = Some 12" "nth_opt HOME_ENTRY (Suc 0) = Some 12"
    by (simp_all add: nth_opt_def HOME_ENTRY_def)
  have l: "legal_tokens scenario4 2 = [(1, 0), (1, 1)]"
    by (simp add: legal_tokens_def scenario4_def nth_opt_def can_move_token_def HOME_ENTRY_def
          MAIN_PATH_LEN_def HOME_STRETCH_LEN_def upt_rec[of 0] upt_rec[of 1] upt_rec[of 2] upt_rec[of 3] upt_rec[of 4])
  have tp: "token_pos scenario4 (1, 0) = Some 2" "token_pos scenario4 (1, 1) = Some 3"
    by (simp_all add: token_pos_def scenario4_def nth_opt_def)
  have a: "advance_position 2 2 (Suc 0) = Some 4" "advance_position 3 2 (Suc 0) = Some 5"
    by (simp_all add: advance_position_def e MAIN_PATH_LEN_def HOME_STRETCH_LEN_def)
  have "capture_target scenario4 2 (1, 0) = Some False"
    unfolding capture_target_def tp
    by (simp add: a MAIN_PATH_LEN_def scenario4_def)
  with capture_target_eq[of "(1, 0)" scenario4 2 2] tp
  have c0: "\<not> capture_opportunity scenario4 2 (1, 0)" by simp
  have "capture_target scenario4 2 (1, 1) = Some True"
    unfolding capture_target_def tp
    by (simp add: a MAIN_PATH_LEN_def scenario4_def)
  with capture_target_eq[of "(1, 1)" scenario4 3 2] tp
  have c1: "capture_opportunity scenario4 2 (1, 1)" by simp
  have f: "find (capture_opportunity scenario4 2) (legal_tokens scenario4 2) = Some (1, 1)"
    using c0 c1 unfolding l by simp
  from ai_roll_prefers_capture[OF w, of 2 0] w l f show ?thesis
    by auto
qed

section \<open>Win detection\<close>


section \<open>Rejected actions\<close>




section \<open>After a win\<close>







section \<open>Another turn on a six\<close>










lemma complete_animation_plain:
  "cbs = [] \<or> cbs = [Ai_roll] \<Longrightarrow> complete_animation (g, cbs) = Some (g, cbs)"
  by auto


















section \<open>Path model\<close>

text \<open>
  Claim C10, for player 0. The table holds six points for the player, but they are
  interpolated from \<^verbatim>\<open>PATH_COORDS[START_POSITIONS[0]]\<close>, the start cell (grid cell (6,0)), and not
  from the entry cell \<^verbatim>\<open>PATH_COORDS[HOME_ENTRY[0]]\<close> (index 51, grid cell (8,6)).
\<close>

theorem home_stretch_from_start_cell:
  "nth_opt START_POSITIONS 0 = Some 0 \<and> nth_opt HOME_ENTRY 0 = Some 51 \<and>
   nth_opt PATH_COORDS 0 = Some (pix 6 0) \<and> nth_opt PATH_COORDS 51 = Some (pix 8 6) \<and>
   HOME_COORDS 0 = Some (interpolated_from (pix 6 0)) \<and>
   HOME_COORDS 0 \<noteq> Some (interpolated_from (pix 8 6)) \<and>
   map_option length (HOME_COORDS 0) = Some 6"
  by code_simp

section \<open>The animation path of a token on the board\<close>

text \<open>
  For a token on the track or in its home stretch and a legal roll, the path that \<^verbatim>\<open>make_move\<close>
  builds is the chain of single steps: it has one entry per step, each entry is one step from
  the one before, and the last entry is the position \<^verbatim>\<open>advance_position\<close> gives for the whole
  roll.
\<close>

lemma distanceToEntry_step:
  assumes "0 < distanceToEntry cur e"
  shows "distanceToEntry ((cur + 1) mod 52) e = distanceToEntry cur e - 1"
proof -
  have "(e - (cur + 1) mod 52) mod 52 = (e - (cur + 1)) mod 52"
    by (simp add: mod_diff_right_eq)
  also have "\<dots> = ((e - cur) mod 52 - 1) mod 52"
    by (simp add: mod_diff_left_eq algebra_simps)
  also have "\<dots> = (e - cur) mod 52 - 1"
  proof (rule mod_pos_pos_trivial)
    from assms show "0 \<le> (e - cur) mod 52 - 1" by (simp add: distanceToEntry_def)
    have "(e - cur) mod 52 < 52" by simp
    then show "(e - cur) mod 52 - 1 < 52" by linarith
  qed
  finally show ?thesis by (simp add: distanceToEntry_def)
qed

lemma advance_position_home:
  assumes "52 \<le> pos"
  shows "advance_position pos steps p = Some (if pos + steps \<le> 57 then pos + steps else - 1)"
  using assms by (simp add: advance_position_def MAIN_PATH_LEN_def HOME_STRETCH_LEN_def Let_def)

lemma single_step_first:
  assumes "p < 4" and "0 \<le> cur" and "cur \<le> 57" and "0 \<le> k"
    and "advance_position cur (k + 1) p = Some r" and "r \<noteq> - 1"
  shows "\<exists>nx. advance_position cur 1 p = Some nx \<and> nx \<noteq> - 1 \<and> 0 \<le> nx \<and> nx \<le> 57 \<and>
           advance_position nx k p = Some r"
proof (cases "52 \<le> cur")
  case True
  with assms show ?thesis
    by (auto simp: advance_position_home split: if_splits)
next
  case False
  with assms(2) have tr: "0 \<le> cur" "cur < 52" by simp_all
  from assms(1) obtain e where e: "nth_opt HOME_ENTRY p = Some e" "e \<in> {51, 12, 25, 38}"
    using nth_opt_HOME_ENTRY by blast
  then have eb: "0 \<le> e" "e < 52" by auto
  note adv = advance_position_track[OF _ _ e(1) eb]
  have dn: "0 \<le> distanceToEntry cur e" by (simp add: distanceToEntry_def)
  show ?thesis
  proof (cases "distanceToEntry cur e = 0")
    case True
    with assms(4,5,6) show ?thesis
      by (auto simp: adv[OF tr] advance_position_home split: if_splits)
  next
    case False
    with dn have dp: "0 < distanceToEntry cur e" by simp
    let ?nx = "(cur + 1) mod 52"
    have nb: "0 \<le> ?nx" "?nx < 52" by simp_all
    have "(?nx + k) mod 52 = (cur + 1 + k) mod 52"
      by (rule mod_add_left_eq)
    then have m: "(?nx + k) mod 52 = (cur + (k + 1)) mod 52"
      by (simp only: add.assoc add.commute[of 1 k])
    from dp have 1: "advance_position cur 1 p = Some ?nx"
      by (simp add: adv[OF tr])
    have "advance_position ?nx k p = advance_position cur (k + 1) p"
      unfolding adv[OF nb] adv[OF tr] distanceToEntry_step[OF dp] m
      by auto
    moreover have "?nx \<noteq> - 1" "?nx \<le> 57"
      using nb by linarith+
    ultimately show ?thesis using 1 assms(5) nb(1) by simp
  qed
qed

lemma advance_position_zero:
  assumes "p < 4" and "0 \<le> cur" and "cur \<le> 57"
  shows "advance_position cur 0 p = Some cur"
proof (cases "52 \<le> cur")
  case True
  with assms show ?thesis by (simp add: advance_position_home)
next
  case False
  with assms(2) have tr: "0 \<le> cur" "cur < 52" by simp_all
  from assms(1) obtain e where e: "nth_opt HOME_ENTRY p = Some e" "e \<in> {51, 12, 25, 38}"
    using nth_opt_HOME_ENTRY by blast
  then have eb: "0 \<le> e" "e < 52" by auto
  have dn: "0 \<le> distanceToEntry cur e" by (simp add: distanceToEntry_def)
  with tr show ?thesis
    by (simp add: advance_position_track[OF tr e(1) eb])
qed

lemma path_loop_chain:
  assumes "p < 4" and "0 \<le> cur" and "cur \<le> 57"
    and "advance_position cur (int n) p = Some r" and "r \<noteq> - 1"
  shows "\<exists>path. path_loop n cur p = Some path \<and> length path = n \<and> last (cur # path) = r \<and>
           (\<forall>i < n. advance_position ((cur # path) ! i) 1 p = Some (path ! i))"
  using assms
proof (induction n arbitrary: cur)
  case 0
  then show ?case by (simp add: advance_position_zero)
next
  case (Suc n)
  from Suc.prems(4) have "advance_position cur (int n + 1) p = Some r"
    by (simp add: add.commute)
  from single_step_first[OF Suc.prems(1,2,3) _ this Suc.prems(5)] obtain nx where
    nx: "advance_position cur 1 p = Some nx" "nx \<noteq> - 1" "0 \<le> nx" "nx \<le> 57"
        "advance_position nx (int n) p = Some r"
    by auto
  from Suc.IH[OF Suc.prems(1) nx(3,4,5) Suc.prems(5)] obtain path where
    p: "path_loop n nx p = Some path" "length path = n" "last (nx # path) = r"
       "\<forall>i < n. advance_position ((nx # path) ! i) 1 p = Some (path ! i)"
    by blast
  have "\<forall>i < Suc n. advance_position ((cur # nx # path) ! i) 1 p = Some ((nx # path) ! i)"
    using nx(1) p(4) by (auto simp: nth_Cons split: nat.splits)
  with nx p show ?case by simp
qed

lemma advance_position_legal:
  assumes "p < 4" and "0 \<le> pos" and "0 \<le> roll"
    and "can_move_token pos p roll = Some True"
  shows "\<exists>r. advance_position pos roll p = Some r \<and> r \<noteq> - 1"
proof (cases "52 \<le> pos")
  case True
  with assms show ?thesis
    by (simp add: advance_position_home can_move_token_def MAIN_PATH_LEN_def
          HOME_STRETCH_LEN_def)
next
  case False
  with assms(2) have tr: "0 \<le> pos" "pos < 52" by simp_all
  from assms(1) obtain e where e: "nth_opt HOME_ENTRY p = Some e" "e \<in> {51, 12, 25, 38}"
    using nth_opt_HOME_ENTRY by blast
  then have eb: "0 \<le> e" "e < 52" by auto
  obtain v where v: "(pos + roll) mod 52 = v" "0 \<le> v" by simp
  from assms(4) v show ?thesis
    by (simp add: advance_position_track[OF tr e(1) eb] can_move_token_track[OF tr e(1) eb]
          split: if_splits)
qed

lemma make_move_path_on_board:
  assumes "p < 4" and "0 \<le> pos" and "pos \<le> 57" and "1 \<le> roll"
    and "can_move_token pos p roll = Some True"
  shows "\<exists>path r. make_move_path pos roll p = Some path \<and>
           advance_position pos roll p = Some r \<and>
           length path = nat roll \<and> last path = r \<and>
           (\<forall>i < length path. advance_position ((pos # path) ! i) 1 p = Some (path ! i))"
proof -
  from assms(4) have "0 \<le> roll" by simp
  from advance_position_legal[OF assms(1,2) this assms(5)]
  obtain r where r: "advance_position pos roll p = Some r" "r \<noteq> - 1"
    by blast
  from assms(4) have "int (nat roll) = roll" by simp
  with r have "advance_position pos (int (nat roll)) p = Some r" by simp
  from path_loop_chain[OF assms(1,2,3) this r(2)] obtain path where
    p: "path_loop (nat roll) pos p = Some path" "length path = nat roll"
       "last (pos # path) = r"
       "\<forall>i < nat roll. advance_position ((pos # path) ! i) 1 p = Some (path ! i)"
    by blast
  from p(2) assms(4) have "path \<noteq> []" by auto
  with p r show ?thesis
    by (auto simp: make_move_path_def)
qed

section \<open>The start of a game and the winner test\<close>

text \<open>
  \<^verbatim>\<open>init_players\<close> gives a well-formed game with every token in its base; and on a well-formed
  game \<^verbatim>\<open>check_winner\<close> returns true exactly when some player has all four tokens on 57.
\<close>

lemma init_players_well_formed:
  assumes "2 \<le> num_players g" and "num_players g \<le> 4"
  shows "well_formed (init_players g)"
    and "\<forall>toks \<in> set (players (init_players g)). \<forall>t \<in> set toks. t = - 1"
    and "dice_roll (init_players g) = None"
  using assms
  by (auto simp: well_formed_def init_players_def list_all_iff TOKENS_PER_PLAYER_def)

lemma all_finished_iff:
  assumes "length toks = TOKENS_PER_PLAYER"
  shows "length (filter (\<lambda>t. t = MAIN_PATH_LEN + HOME_STRETCH_LEN - 1) toks) = TOKENS_PER_PLAYER
         \<longleftrightarrow> (\<forall>t \<in> set toks. t = 57)"
proof -
  have "length (filter (\<lambda>t. t = (57::int)) toks) = length toks \<longleftrightarrow> (\<forall>t \<in> set toks. t = 57)"
  proof
    assume a: "length (filter (\<lambda>t. t = (57::int)) toks) = length toks"
    show "\<forall>t \<in> set toks. t = 57"
    proof (rule ccontr)
      assume "\<not> (\<forall>t \<in> set toks. t = 57)"
      then obtain t where "t \<in> set toks" "\<not> t = 57" by blast
      then have "length (filter (\<lambda>t. t = (57::int)) toks) < length toks"
        by (rule length_filter_less)
      with a show False by simp
    qed
  next
    assume "\<forall>t \<in> set toks. t = 57"
    then have "filter (\<lambda>t. t = (57::int)) toks = toks" by (simp add: filter_id_conv)
    then show "length (filter (\<lambda>t. t = (57::int)) toks) = length toks" by simp
  qed
  with assms show ?thesis
    by (simp add: MAIN_PATH_LEN_def HOME_STRETCH_LEN_def)
qed

lemma check_winner_iff:
  assumes "well_formed g"
  shows "fst (check_winner g) \<longleftrightarrow> (\<exists>toks \<in> set (players g). \<forall>t \<in> set toks. t = 57)"
proof -
  let ?P = "\<lambda>(p_idx, toks). length (filter (\<lambda>t. t = MAIN_PATH_LEN + HOME_STRETCH_LEN - 1) toks)
                     = TOKENS_PER_PLAYER"
  from assms have l: "\<And>toks. toks \<in> set (players g) \<Longrightarrow> length toks = TOKENS_PER_PLAYER"
    by (simp add: well_formed_def list_all_iff)
  have "fst (check_winner g) \<longleftrightarrow> find ?P (enumerate 0 (players g)) \<noteq> None"
    by (auto simp: check_winner_def split: option.splits)
  also have "\<dots> \<longleftrightarrow> list_ex ?P (enumerate 0 (players g))"
    by (auto simp: find_None_iff list_ex_iff)
  also have "\<dots> \<longleftrightarrow> (\<exists>q < length (players g).
      length (filter (\<lambda>t. t = MAIN_PATH_LEN + HOME_STRETCH_LEN - 1) (players g ! q))
        = TOKENS_PER_PLAYER)"
    by (rule list_ex_enumerate)
  also have "\<dots> \<longleftrightarrow> (\<exists>toks \<in> set (players g).
      length (filter (\<lambda>t. t = MAIN_PATH_LEN + HOME_STRETCH_LEN - 1) toks) = TOKENS_PER_PLAYER)"
    unfolding Bex_def in_set_conv_nth by blast
  also have "\<dots> \<longleftrightarrow> (\<exists>toks \<in> set (players g). \<forall>t \<in> set toks. t = 57)"
    using l by (auto simp: all_finished_iff)
  finally show ?thesis .
qed

end
